theory Spec2Isabelle
  imports Main "HOL-Library.AList" "HOL-Library.Sublist"
begin

section \<open>Python values and exceptions\<close>

text \<open>
  The parameter values that reach \<^verbatim>\<open>DAGBuilder\<close> come from JSON request bodies or from
  literal Python data. A dictionary is an association list in insertion order (keys are
  strings, as in JSON). A float is carried as an opaque mantissa/exponent pair: no
  arithmetic is ever done on parameter values.
\<close>

datatype pyval =
    PNone
  | PBool bool
  | PInt int
  | PFloat int int
  | PStr string
  | PList "pyval list"
  | PDict "(string \<times> pyval) list"

text \<open>
  Every \<^verbatim>\<open>raise ValueError(...)\<close> of the sources, by its message. The builder and the
  resolver raise nothing but \<^verbatim>\<open>ValueError\<close> themselves; \<^verbatim>\<open>KeyError\<close>,
  \<^verbatim>\<open>TypeError\<close> and \<^verbatim>\<open>AttributeError\<close> come from the Python operations they perform.
\<close>

datatype value_error =
    RegistryUnsupported string
  | AddNodeUnsupported string
  | NodeAlreadyExists string
  | InvalidParameters string
  | EdgeNodeMissing
  | EdgeWouldCreateCycle
  | GraphContainsCycle
  | MissingRequiredParameters string string "string list"

datatype py_error =
    ValueError value_error
  | KeyError string
  | TypeError
  | AttributeError

text \<open>\<^verbatim>\<open>key in x\<close> for a string \<^verbatim>\<open>key\<close>: key membership in a dict, substring test on
  a string, element membership in a list; any other operand is not iterable.\<close>

fun py_contains :: "string \<Rightarrow> pyval \<Rightarrow> py_error + bool" where
  "py_contains k (PDict d) = Inr (map_of d k \<noteq> None)"
| "py_contains k (PStr s) = Inr (sublist k s)"
| "py_contains k (PList xs) = Inr (PStr k \<in> set xs)"
| "py_contains k PNone = Inl TypeError"
| "py_contains k (PBool b) = Inl TypeError"
| "py_contains k (PInt i) = Inl TypeError"
| "py_contains k (PFloat m e) = Inl TypeError"

text \<open>\<^verbatim>\<open>x[key]\<close> for a string \<^verbatim>\<open>key\<close>: only a dict can be indexed by a string.\<close>

fun py_getitem :: "pyval \<Rightarrow> string \<Rightarrow> py_error + pyval" where
  "py_getitem (PDict d) k = (case map_of d k of None \<Rightarrow> Inl (KeyError k) | Some v \<Rightarrow> Inr v)"
| "py_getitem PNone k = Inl TypeError"
| "py_getitem (PBool b) k = Inl TypeError"
| "py_getitem (PInt i) k = Inl TypeError"
| "py_getitem (PFloat m e) k = Inl TypeError"
| "py_getitem (PStr s) k = Inl TypeError"
| "py_getitem (PList xs) k = Inl TypeError"

text \<open>\<^verbatim>\<open>for p in x\<close>: the elements of a list, the keys of a dict, the characters of a
  string.\<close>

fun py_iter :: "pyval \<Rightarrow> py_error + pyval list" where
  "py_iter (PList xs) = Inr xs"
| "py_iter (PDict d) = Inr (map (\<lambda>kv. PStr (fst kv)) d)"
| "py_iter (PStr s) = Inr (map (\<lambda>c. PStr [c]) s)"
| "py_iter PNone = Inl TypeError"
| "py_iter (PBool b) = Inl TypeError"
| "py_iter (PInt i) = Inl TypeError"
| "py_iter (PFloat m e) = Inl TypeError"

fun is_dict :: "pyval \<Rightarrow> bool" where
  "is_dict (PDict d) = True"
| "is_dict v = False"

fun is_str :: "pyval \<Rightarrow> bool" where
  "is_str (PStr s) = True"
| "is_str v = False"

text \<open>\<^verbatim>\<open>isinstance(v, (int, float))\<close>; \<^verbatim>\<open>bool\<close> is a subclass of \<^verbatim>\<open>int\<close>.\<close>

fun is_number :: "pyval \<Rightarrow> bool" where
  "is_number (PInt i) = True"
| "is_number (PFloat m e) = True"
| "is_number (PBool b) = True"
| "is_number v = False"

text \<open>A list comprehension or loop whose body may raise: the first error ends it.\<close>

fun traverse :: "('a \<Rightarrow> 'e + 'b) \<Rightarrow> 'a list \<Rightarrow> 'e + 'b list" where
  "traverse f [] = Inr []"
| "traverse f (x # xs) =
     (case f x of
        Inl e \<Rightarrow> Inl e
      | Inr y \<Rightarrow> (case traverse f xs of Inl e \<Rightarrow> Inl e | Inr ys \<Rightarrow> Inr (y # ys)))"

section \<open>function\_registry.py\<close>

datatype operation = add_operation | sma_operation | adx_operation

definition function_registry :: "(string \<times> operation \<times> string list) list" where
  "function_registry =
     [(''ADD'', add_operation, [''columns'', ''value'']),
      (''SMA'', sma_operation, [''window_size'', ''column'']),
      (''ADX'', adx_operation, [''high'', ''low'', ''close'', ''time_period''])]"

definition get_operation_function :: "string \<Rightarrow> py_error + (operation \<times> string list)" where
  "get_operation_function node_type =
     (case map_of function_registry node_type of
        Some entry \<Rightarrow> Inr entry
      | None \<Rightarrow> Inl (ValueError (RegistryUnsupported node_type)))"

section \<open>The networkx digraph held by the builder\<close>

text \<open>
  \<^verbatim>\<open>nx.DiGraph\<close> keeps its nodes and, per node, its successors in insertion-ordered
  dicts. The model keeps the nodes with their attribute dict (\<^verbatim>\<open>type\<close>,
  \<^verbatim>\<open>parameters\<close>) in insertion order, and the edges in one list in insertion order,
  from which the successors of a node are read off in their own insertion order.
\<close>

record node_attrs =
  attr_type :: string
  attr_parameters :: "(string \<times> pyval) list"

record digraph =
  node_list :: "(string \<times> node_attrs) list"
  edge_list :: "(string \<times> string) list"

definition empty_graph :: digraph where
  "empty_graph = \<lparr>node_list = [], edge_list = []\<rparr>"

definition node_ids :: "digraph \<Rightarrow> string list" where
  "node_ids g = map fst (node_list g)"

definition nx_has_node :: "digraph \<Rightarrow> string \<Rightarrow> bool" where
  "nx_has_node g n = (map_of (node_list g) n \<noteq> None)"

definition nx_add_node :: "digraph \<Rightarrow> string \<Rightarrow> node_attrs \<Rightarrow> digraph" where
  "nx_add_node g n attrs = g\<lparr>node_list := AList.update n attrs (node_list g)\<rparr>"

text \<open>\<^verbatim>\<open>remove_node\<close> drops the node and every edge incident to it.\<close>

definition nx_remove_node :: "digraph \<Rightarrow> string \<Rightarrow> digraph" where
  "nx_remove_node g n =
     \<lparr>node_list = AList.delete n (node_list g),
      edge_list = filter (\<lambda>e. fst e \<noteq> n \<and> snd e \<noteq> n) (edge_list g)\<rparr>"

definition nx_has_edge :: "digraph \<Rightarrow> string \<Rightarrow> string \<Rightarrow> bool" where
  "nx_has_edge g u v = ((u, v) \<in> set (edge_list g))"

text \<open>\<^verbatim>\<open>add_edge\<close> on two existing nodes: a new key of \<^verbatim>\<open>_succ[u]\<close> goes last, an
  existing one keeps its place. (The builder calls it only with both nodes present.)\<close>

definition nx_add_edge :: "digraph \<Rightarrow> string \<Rightarrow> string \<Rightarrow> digraph" where
  "nx_add_edge g u v =
     (if nx_has_edge g u v then g else g\<lparr>edge_list := edge_list g @ [(u, v)]\<rparr>)"

definition nx_remove_edge :: "digraph \<Rightarrow> string \<Rightarrow> string \<Rightarrow> digraph" where
  "nx_remove_edge g u v = g\<lparr>edge_list := removeAll (u, v) (edge_list g)\<rparr>"

definition successors :: "digraph \<Rightarrow> string \<Rightarrow> string list" where
  "successors g n = map snd (filter (\<lambda>e. fst e = n) (edge_list g))"

definition in_degree :: "digraph \<Rightarrow> string \<Rightarrow> int" where
  "in_degree g n = int (length (filter (\<lambda>e. snd e = n) (edge_list g)))"

text \<open>\<^verbatim>\<open>graph.edges()\<close>: node by node, each node's successors in their order.\<close>

definition nx_edges :: "digraph \<Rightarrow> (string \<times> string) list" where
  "nx_edges g = concat (map (\<lambda>n. map (\<lambda>v. (n, v)) (successors g n)) (node_ids g))"

section \<open>dag\_builder.py: nodes\<close>

text \<open>The body of the validation loop for one (dict) parameter of an \<^verbatim>\<open>ADD\<close> node.\<close>

fun add_param_ok :: "pyval \<Rightarrow> bool" where
  "add_param_ok (PDict d) =
     (case map_of d ''column'' of
        Some c \<Rightarrow> is_str c
      | None \<Rightarrow> (case map_of d ''value'' of Some v \<Rightarrow> is_number v | None \<Rightarrow> False))"
| "add_param_ok v = False"

definition validate_parameters :: "string \<Rightarrow> pyval \<Rightarrow> bool" where
  "validate_parameters node_type parameters =
     (if node_type = ''ADD'' then
        (case parameters of
           PList ps \<Rightarrow> if \<not> list_all is_dict ps then False else list_all add_param_ok ps
         | _ \<Rightarrow> False)
      else True)"

text \<open>
  The loop of \<^verbatim>\<open>_convert_to_internal_parameters\<close>. In
  \<^verbatim>\<open>internal_params["columns"].append(param["column"])\<close> the subscription of
  \<^verbatim>\<open>internal_params\<close> is evaluated first, then the argument.
\<close>

fun convert_loop :: "pyval list \<Rightarrow> (string \<times> pyval) list \<Rightarrow> py_error + (string \<times> pyval) list" where
  "convert_loop [] internal_params = Inr internal_params"
| "convert_loop (param # rest) internal_params =
     (case py_contains ''column'' param of
        Inl e \<Rightarrow> Inl e
      | Inr True \<Rightarrow>
          (case map_of internal_params ''columns'' of
             None \<Rightarrow> Inl (KeyError ''columns'')
           | Some (PList cols) \<Rightarrow>
               (case py_getitem param ''column'' of
                  Inl e \<Rightarrow> Inl e
                | Inr c \<Rightarrow>
                    convert_loop rest (AList.update ''columns'' (PList (cols @ [c])) internal_params))
           | Some _ \<Rightarrow> Inl AttributeError)
      | Inr False \<Rightarrow>
          (case py_contains ''value'' param of
             Inl e \<Rightarrow> Inl e
           | Inr True \<Rightarrow>
               (case py_getitem param ''value'' of
                  Inl e \<Rightarrow> Inl e
                | Inr v \<Rightarrow> convert_loop rest (AList.update ''value'' v internal_params))
           | Inr False \<Rightarrow> convert_loop rest internal_params))"

definition convert_to_internal_parameters :: "pyval \<Rightarrow> py_error + (string \<times> pyval) list" where
  "convert_to_internal_parameters parameters =
     (case py_iter parameters of
        Inl e \<Rightarrow> Inl e
      | Inr ps \<Rightarrow> convert_loop ps [(''sources'', PList [])])"

text \<open>
  \<^verbatim>\<open>add_node\<close>: every \<^verbatim>\<open>raise\<close> stands before \<^verbatim>\<open>self.graph.add_node\<close>; the
  \<^verbatim>\<open>except\<close> clause logs and re-raises. The result is the outcome and the graph
  the builder holds afterwards.
\<close>

definition add_node :: "digraph \<Rightarrow> string \<Rightarrow> string \<Rightarrow> pyval \<Rightarrow> (py_error + unit) \<times> digraph" where
  "add_node g node_id node_type parameters =
     (case get_operation_function node_type of
        Inl e \<Rightarrow> (Inl (ValueError (AddNodeUnsupported node_type)), g)
      | Inr entry \<Rightarrow>
          if nx_has_node g node_id then (Inl (ValueError (NodeAlreadyExists node_id)), g)
          else if \<not> validate_parameters node_type parameters
          then (Inl (ValueError (InvalidParameters node_type)), g)
          else
            (case convert_to_internal_parameters parameters of
               Inl e \<Rightarrow> (Inl e, g)
             | Inr internal_parameters \<Rightarrow>
                 (Inr (),
                  nx_add_node g node_id
                    \<lparr>attr_type = node_type, attr_parameters = internal_parameters\<rparr>)))"

definition remove_node :: "digraph \<Rightarrow> string \<Rightarrow> (py_error + unit) \<times> digraph" where
  "remove_node g node_id =
     (if nx_has_node g node_id then (Inr (), nx_remove_node g node_id) else (Inr (), g))"

section \<open>dag\_builder.py: export\<close>

record doc_node =
  doc_id :: string
  doc_type :: string
  doc_parameters :: "pyval list"

record dag_document =
  doc_nodes :: "doc_node list"
  doc_edges :: "(string \<times> string) list"

definition convert_from_internal_parameters :: "(string \<times> pyval) list \<Rightarrow> py_error + pyval list" where
  "convert_from_internal_parameters parameters =
     (case map_of parameters ''columns'' of
        None \<Rightarrow> Inl (KeyError ''columns'')
      | Some cols \<Rightarrow>
          (case py_iter cols of
             Inl e \<Rightarrow> Inl e
           | Inr cs \<Rightarrow>
               (case map_of parameters ''value'' of
                  None \<Rightarrow> Inl (KeyError ''value'')
                | Some v \<Rightarrow>
                    Inr (map (\<lambda>col. PDict [(''column'', col)]) cs @
                         (if v \<noteq> PNone then [PDict [(''value'', v)]] else [])))))"

definition export_node :: "string \<times> node_attrs \<Rightarrow> py_error + doc_node" where
  "export_node n =
     (case convert_from_internal_parameters (attr_parameters (snd n)) of
        Inl e \<Rightarrow> Inl e
      | Inr ps \<Rightarrow> Inr \<lparr>doc_id = fst n, doc_type = attr_type (snd n), doc_parameters = ps\<rparr>)"

text \<open>\<^verbatim>\<open>to_json\<close>; \<^verbatim>\<open>json.dumps\<close> only serialises the document built here.\<close>

definition to_json :: "digraph \<Rightarrow> py_error + dag_document" where
  "to_json g =
     (case traverse export_node (node_list g) of
        Inl e \<Rightarrow> Inl e
      | Inr nodes \<Rightarrow> Inr \<lparr>doc_nodes = nodes, doc_edges = nx_edges g\<rparr>)"

section \<open>dag\_builder.py: edges\<close>

text \<open>
  \<^verbatim>\<open>list(nx.simple_cycles(G))\<close> is networkx's enumeration of the elementary circuits of
  the whole graph (self-loops included); the builder only tests it for emptiness. The
  test is decided here by a search over the whole edge list: some edge whose head
  reaches its tail.
\<close>

function dfs :: "('a \<times> 'a) list \<Rightarrow> 'a list \<Rightarrow> 'a list \<Rightarrow> 'a list" where
  "dfs es [] visited = visited"
| "dfs es (x # stack) visited =
     (if x \<in> set visited then dfs es stack visited
      else dfs es (map snd (filter (\<lambda>e. fst e = x) es) @ stack) (x # visited))"
  by pat_completeness auto
termination
proof (relation "inv_image (finite_psubset <*lex*> less_than)
         (\<lambda>(es, stack, visited). ((fst ` set es \<union> snd ` set es \<union> set stack) - set visited, length stack))")
  show "wf (inv_image (finite_psubset <*lex*> less_than)
         (\<lambda>(es, stack, visited). ((fst ` set es \<union> snd ` set es \<union> set stack) - set visited, length stack)))"
    by (intro wf_inv_image wf_lex_prod wf_finite_psubset wf_less_than)
next
  fix es :: "('a \<times> 'a) list" and x :: 'a and stack visited :: "'a list"
  assume "x \<in> set visited"
  then show "((es, stack, visited), (es, x # stack, visited)) \<in>
      inv_image (finite_psubset <*lex*> less_than)
         (\<lambda>(es, stack, visited). ((fst ` set es \<union> snd ` set es \<union> set stack) - set visited, length stack))"
    by (auto simp: finite_psubset_def)
next
  fix es :: "('a \<times> 'a) list" and x :: 'a and stack visited :: "'a list"
  assume "x \<notin> set visited"
  then have "(fst ` set es \<union> snd ` set es \<union> set (map snd (filter (\<lambda>e. fst e = x) es) @ stack)) - set (x # visited)
      \<subset> (fst ` set es \<union> snd ` set es \<union> set (x # stack)) - set visited"
    by force
  then show "((es, map snd (filter (\<lambda>e. fst e = x) es) @ stack, x # visited), (es, x # stack, visited)) \<in>
      inv_image (finite_psubset <*lex*> less_than)
         (\<lambda>(es, stack, visited). ((fst ` set es \<union> snd ` set es \<union> set stack) - set visited, length stack))"
    by (simp add: finite_psubset_def)
qed

definition reaches :: "('a \<times> 'a) list \<Rightarrow> 'a \<Rightarrow> 'a \<Rightarrow> bool" where
  "reaches es a b = (b \<in> set (dfs es [a] []))"

definition simple_cycles_nonempty :: "digraph \<Rightarrow> bool" where
  "simple_cycles_nonempty g =
     list_ex (\<lambda>e. reaches (edge_list g) (snd e) (fst e)) (edge_list g)"

text \<open>\<^verbatim>\<open>add_edge\<close>: insert, enumerate the cycles of the whole graph, remove again and
  raise when there is one.\<close>

definition add_edge :: "digraph \<Rightarrow> string \<Rightarrow> string \<Rightarrow> (py_error + unit) \<times> digraph" where
  "add_edge g source_id target_id =
     (if \<not> nx_has_node g source_id \<or> \<not> nx_has_node g target_id
      then (Inl (ValueError EdgeNodeMissing), g)
      else
        let g1 = nx_add_edge g source_id target_id in
        if simple_cycles_nonempty g1
        then (Inl (ValueError EdgeWouldCreateCycle), nx_remove_edge g1 source_id target_id)
        else (Inr (), g1))"

definition remove_edge :: "digraph \<Rightarrow> string \<Rightarrow> string \<Rightarrow> (py_error + unit) \<times> digraph" where
  "remove_edge g source_id target_id =
     (if nx_has_edge g source_id target_id
      then (Inr (), nx_remove_edge g source_id target_id)
      else (Inr (), g))"

section \<open>dag\_builder.py: save and load\<close>

text \<open>\<^verbatim>\<open>save_to_file\<close> writes what \<^verbatim>\<open>to_json\<close> returns; the result is the document
  that reaches the file.\<close>

definition save_to_file :: "digraph \<Rightarrow> py_error + dag_document" where
  "save_to_file g = to_json g"

definition convert_loaded_parameter :: "pyval \<Rightarrow> py_error + pyval" where
  "convert_loaded_parameter p =
     (case py_contains ''column'' p of
        Inl e \<Rightarrow> Inl e
      | Inr True \<Rightarrow>
          (case py_getitem p ''column'' of
             Inl e \<Rightarrow> Inl e
           | Inr c \<Rightarrow> Inr (PDict [(''column'', c)]))
      | Inr False \<Rightarrow>
          (case py_getitem p ''value'' of
             Inl e \<Rightarrow> Inl e
           | Inr v \<Rightarrow> Inr (PDict [(''value'', v)])))"

fun load_nodes :: "digraph \<Rightarrow> doc_node list \<Rightarrow> (py_error + unit) \<times> digraph" where
  "load_nodes g [] = (Inr (), g)"
| "load_nodes g (node # rest) =
     (case traverse convert_loaded_parameter (doc_parameters node) of
        Inl e \<Rightarrow> (Inl e, g)
      | Inr converted_parameters \<Rightarrow>
          (case add_node g (doc_id node) (doc_type node) (PList converted_parameters) of
             (Inl e, g') \<Rightarrow> (Inl e, g')
           | (Inr u, g') \<Rightarrow> load_nodes g' rest))"

fun load_edges :: "digraph \<Rightarrow> (string \<times> string) list \<Rightarrow> (py_error + unit) \<times> digraph" where
  "load_edges g [] = (Inr (), g)"
| "load_edges g (edge # rest) =
     (case add_edge g (fst edge) (snd edge) of
        (Inl e, g') \<Rightarrow> (Inl e, g')
      | (Inr u, g') \<Rightarrow> load_edges g' rest)"

text \<open>\<^verbatim>\<open>load_from_file\<close> on the parsed document: the graph held before is cleared.\<close>

definition load_from_file :: "digraph \<Rightarrow> dag_document \<Rightarrow> (py_error + unit) \<times> digraph" where
  "load_from_file g dag_config =
     (case load_nodes empty_graph (doc_nodes dag_config) of
        (Inl e, g') \<Rightarrow> (Inl e, g')
      | (Inr u, g') \<Rightarrow> load_edges g' (doc_edges dag_config))"

section \<open>The graphs the builder can hold\<close>

inductive buildable :: "digraph \<Rightarrow> bool" where
  b_init: "buildable empty_graph"
| b_add_node: "buildable g \<Longrightarrow> buildable (snd (add_node g node_id node_type parameters))"
| b_remove_node: "buildable g \<Longrightarrow> buildable (snd (remove_node g node_id))"
| b_add_edge: "buildable g \<Longrightarrow> buildable (snd (add_edge g source_id target_id))"
| b_remove_edge: "buildable g \<Longrightarrow> buildable (snd (remove_edge g source_id target_id))"

section \<open>dependency\_resolver.py\<close>

text \<open>The \<^verbatim>\<open>for successor in graph.successors(node)\<close> loop: decrement, and enqueue at
  zero. \<^verbatim>\<open>indegree_map\<close> is a dict of Python integers.\<close>

fun decrement_successors ::
  "string list \<Rightarrow> (string \<times> int) list \<Rightarrow> string list \<Rightarrow> py_error + ((string \<times> int) list \<times> string list)" where
  "decrement_successors [] indegree_map queue = Inr (indegree_map, queue)"
| "decrement_successors (successor # rest) indegree_map queue =
     (case map_of indegree_map successor of
        None \<Rightarrow> Inl (KeyError successor)
      | Some d \<Rightarrow>
          decrement_successors rest (AList.update successor (d - 1) indegree_map)
            (if d - 1 = 0 then queue @ [successor] else queue))"

text \<open>
  The \<^verbatim>\<open>while queue\<close> loop. An entry of the plan is the delayed call
  \<^verbatim>\<open>execute_node(graph.nodes[node], node)\<close>, kept as its two arguments; \<^verbatim>\<open>visited\<close>
  is a Python set, kept as a duplicate-free list.
\<close>

function kahn_loop ::
  "digraph \<Rightarrow> string list \<Rightarrow> (string \<times> int) list \<Rightarrow> string list \<Rightarrow> (node_attrs \<times> string) list
     \<Rightarrow> py_error + (string list \<times> (node_attrs \<times> string) list)" where
  "kahn_loop g [] indegree_map visited execution_plan = Inr (visited, execution_plan)"
| "kahn_loop g (node # queue) indegree_map visited execution_plan =
     (case map_of (node_list g) node of
        None \<Rightarrow> Inl (KeyError node)
      | Some node_data \<Rightarrow>
          (case decrement_successors (successors g node) indegree_map queue of
             Inl e \<Rightarrow> Inl e
           | Inr (indegree_map', queue') \<Rightarrow>
               kahn_loop g queue' indegree_map' (List.insert node visited)
                 (execution_plan @ [(node_data, node)])))"
  by pat_completeness auto
termination
proof (relation "measure (\<lambda>(g, queue, indegree_map, visited, execution_plan).
          length queue + sum_list (map (\<lambda>kv. nat (snd kv)) indegree_map))")
  show "wf (measure (\<lambda>(g, queue, indegree_map, visited, execution_plan).
          length queue + sum_list (map (\<lambda>kv. nat (snd kv)) indegree_map)))"
    by simp
next
  fix g :: digraph and node :: string and queue :: "string list"
    and indegree_map :: "(string \<times> int) list" and visited :: "string list"
    and execution_plan :: "(node_attrs \<times> string) list" and node_data x2 indegree_map' queue'
  assume run: "decrement_successors (successors g node) indegree_map queue = Inr x2"
    and x2: "(indegree_map', queue') = x2"
  have upd: "sum_list (map (\<lambda>kv. nat (snd kv)) (AList.update k (d - 1) m)) + (if d - 1 = 0 then 1 else 0)
      \<le> sum_list (map (\<lambda>kv. nat (snd kv)) m)"
    if "map_of m k = Some d" for m :: "(string \<times> int) list" and k d
    using that by (induction m) (auto split: if_splits)
  have dec: "length q' + sum_list (map (\<lambda>kv. nat (snd kv)) m')
      \<le> length q + sum_list (map (\<lambda>kv. nat (snd kv)) m)"
    if "decrement_successors ss m q = Inr (m', q')" for ss m q m' q'
    using that
  proof (induction ss arbitrary: m q)
    case Nil
    then show ?case by simp
  next
    case (Cons s ss)
    then obtain d where d: "map_of m s = Some d"
      by (auto split: option.splits)
    with Cons.prems have "decrement_successors ss (AList.update s (d - 1) m)
        (if d - 1 = 0 then q @ [s] else q) = Inr (m', q')"
      by simp
    from Cons.IH [OF this] upd [OF d] show ?case
      by (auto split: if_splits)
  qed
  from run x2 have "decrement_successors (successors g node) indegree_map queue = Inr (indegree_map', queue')"
    by simp
  from dec [OF this]
  show "((g, queue', indegree_map', List.insert node visited, execution_plan @ [(node_data, node)]),
         (g, node # queue, indegree_map, visited, execution_plan))
      \<in> measure (\<lambda>(g, queue, indegree_map, visited, execution_plan).
          length queue + sum_list (map (\<lambda>kv. nat (snd kv)) indegree_map))"
    by simp
qed

definition resolve_dependencies :: "digraph \<Rightarrow> py_error + (node_attrs \<times> string) list" where
  "resolve_dependencies g =
     (let indegree_map = map (\<lambda>node. (node, in_degree g node)) (node_ids g);
          queue = filter (\<lambda>node. map_of indegree_map node = Some 0) (node_ids g)
      in case kahn_loop g queue indegree_map [] [] of
           Inl e \<Rightarrow> Inl e
         | Inr (visited, execution_plan) \<Rightarrow>
             if length visited \<noteq> length (node_list g)
             then Inl (ValueError GraphContainsCycle)
             else Inr execution_plan)"

text \<open>The position of a node in the plan: the index of its entry.\<close>

fun plan_index :: "(node_attrs \<times> string) list \<Rightarrow> string \<Rightarrow> nat" where
  "plan_index [] n = 0"
| "plan_index (entry # rest) n = (if snd entry = n then 0 else Suc (plan_index rest n))"

text \<open>
  \<^verbatim>\<open>execute_node\<close>. The operation units log or call TA-Lib; what a unit does with
  its parameters is the argument \<open>run\<close>.
\<close>

definition execute_node ::
  "(operation \<Rightarrow> (string \<times> pyval) list \<Rightarrow> py_error + unit) \<Rightarrow> node_attrs \<Rightarrow> string \<Rightarrow> py_error + unit" where
  "execute_node run node_data node_id =
     (case get_operation_function (attr_type node_data) of
        Inl e \<Rightarrow> Inl e
      | Inr (operation_function, required_params) \<Rightarrow>
          let parameters = attr_parameters node_data;
              missing_params = filter (\<lambda>param. map_of parameters param = None) required_params
          in if missing_params \<noteq> []
             then Inl (ValueError (MissingRequiredParameters node_id (attr_type node_data) missing_params))
             else run operation_function parameters)"

section \<open>Invariants and example graphs\<close>

text \<open>No stored node has a \<^verbatim>\<open>columns\<close> key in its internal parameters.\<close>

definition no_columns :: "digraph \<Rightarrow> bool" where
  "no_columns g =
     list_all (\<lambda>n. map_of (attr_parameters (snd n)) ''columns'' = None) (node_list g)"

text \<open>The builder after \<^verbatim>\<open>add_node("n", "ADD", [{"value": 5}])\<close>.\<close>

definition g_value :: digraph where
  "g_value = snd (add_node empty_graph ''n'' ''ADD'' (PList [PDict [(''value'', PInt 5)]]))"

text \<open>The attribute dict stored by \<^verbatim>\<open>add_node("n", "SMA", [])\<close>.\<close>

definition sma_bare :: node_attrs where
  "sma_bare = \<lparr>attr_type = ''SMA'', attr_parameters = [(''sources'', PList [])]\<rparr>"

text \<open>
  Follows the specification's words for \<^verbatim>\<open>addEdge\<close> (section 4.2): fail when an endpoint
  is absent; otherwise search depth-first from the target, over what the target reaches, and
  fail when the source is met; otherwise insert the edge. Nothing is inserted before the
  search. It is compared with \<^verbatim>\<open>add_edge\<close> of the source below.
\<close>

definition spec_add_edge :: "digraph \<Rightarrow> string \<Rightarrow> string \<Rightarrow> (py_error + unit) \<times> digraph" where
  "spec_add_edge g source_id target_id =
     (if \<not> nx_has_node g source_id \<or> \<not> nx_has_node g target_id
      then (Inl (ValueError EdgeNodeMissing), g)
      else if reaches (edge_list g) target_id source_id
      then (Inl (ValueError EdgeWouldCreateCycle), g)
      else (Inr (), nx_add_edge g source_id target_id))"

text \<open>The builder after adding \<^verbatim>\<open>A\<close> (kind \<^verbatim>\<open>ADD\<close>), \<^verbatim>\<open>B\<close> (kind \<^verbatim>\<open>SMA\<close>) and the edge
  \<^verbatim>\<open>A -> B\<close>.\<close>

definition g_ab :: digraph where
  "g_ab = snd (add_edge
            (snd (add_node (snd (add_node empty_graph ''A'' ''ADD'' (PList []))) ''B'' ''SMA'' (PList [])))
            ''A'' ''B'')"

text \<open>What networkx guarantees of a digraph: node ids are unique, an edge is stored once,
  and both ends of an edge are nodes.\<close>

definition wf_graph :: "digraph \<Rightarrow> bool" where
  "wf_graph g =
     (distinct (node_ids g) \<and> distinct (edge_list g) \<and>
      list_all (\<lambda>e. nx_has_node g (fst e) \<and> nx_has_node g (snd e)) (edge_list g))"

text \<open>
  The number of predecessors of a node that are not yet in a set of finished nodes: what
  \<^verbatim>\<open>indegree_map\<close> holds for the node while the loop runs.
\<close>

definition unmet :: "digraph \<Rightarrow> string set \<Rightarrow> string \<Rightarrow> nat" where
  "unmet g finished n = card {u. (u, n) \<in> set (edge_list g) \<and> u \<notin> finished}"

text \<open>
  The invariant of the \<^verbatim>\<open>while queue\<close> loop: plan and queue hold distinct nodes of the
  graph, \<^verbatim>\<open>visited\<close> is the set of planned nodes, \<^verbatim>\<open>indegree_map\<close> counts for each node its
  predecessors not yet planned, the nodes with none are exactly those planned or queued, and
  every edge into a planned node starts at a node planned earlier.
\<close>

definition kahn_inv ::
  "digraph \<Rightarrow> string list \<Rightarrow> (string \<times> int) list \<Rightarrow> string list \<Rightarrow> (node_attrs \<times> string) list \<Rightarrow> bool" where
  "kahn_inv g queue indegree_map visited execution_plan =
     (distinct (map snd execution_plan @ queue)
      \<and> set (map snd execution_plan @ queue) \<subseteq> set (node_ids g)
      \<and> distinct visited \<and> set visited = set (map snd execution_plan)
      \<and> (\<forall>n. map_of indegree_map n =
             (if n \<in> set (node_ids g)
              then Some (int (unmet g (set (map snd execution_plan)) n)) else None))
      \<and> (\<forall>n \<in> set (node_ids g).
             unmet g (set (map snd execution_plan)) n = 0
               \<longleftrightarrow> n \<in> set (map snd execution_plan) \<union> set queue)
      \<and> (\<forall>e \<in> set (edge_list g).
             snd e \<in> set (map snd execution_plan) \<longrightarrow>
               fst e \<in> set (map snd execution_plan)
               \<and> plan_index execution_plan (fst e) < plan_index execution_plan (snd e)))"

section \<open>Parameter conversion and export\<close>

lemma update_fresh: "k \<notin> fst ` set al \<Longrightarrow> AList.update k v al = al @ [(k, v)]"
  by (induction al) auto

lemma set_delete_subset: "set (AList.delete k al) \<subseteq> set al"
  by (auto simp: AList.delete_eq)

lemma convert_loop_no_columns:
  "map_of internal ''columns'' = None \<Longrightarrow> convert_loop ps internal = Inr r
     \<Longrightarrow> map_of r ''columns'' = None"
proof (induction ps arbitrary: internal)
  case Nil
  then show ?case by simp
next
  case (Cons p ps)
  have upd: "map_of (AList.update ''value'' v internal) ''columns'' = None" for v
    using Cons.prems(1) by (simp add: AList.update_conv')
  from Cons.prems show ?case
    by (auto split: sum.splits bool.splits option.splits pyval.splits
             dest: Cons.IH [OF upd] Cons.IH [OF Cons.prems(1)])
qed

lemma convert_to_internal_no_columns:
  "convert_to_internal_parameters p = Inr r \<Longrightarrow> map_of r ''columns'' = None"
  by (auto simp: convert_to_internal_parameters_def split: sum.splits
           dest!: convert_loop_no_columns [rotated])

lemma convert_loop_no_value_error: "convert_loop ps internal \<noteq> Inl (ValueError ve)"
  by (induction ps arbitrary: internal)
     (auto split: sum.splits bool.splits option.splits pyval.splits
           elim!: py_contains.elims py_getitem.elims)

lemma convert_to_internal_no_value_error:
  "convert_to_internal_parameters parameters \<noteq> Inl (ValueError ve)"
  by (cases parameters)
     (auto simp: convert_to_internal_parameters_def convert_loop_no_value_error split: sum.splits)

lemma add_node_cases:
  "snd (add_node g i k p) = g \<or>
   (\<exists>r. convert_to_internal_parameters p = Inr r \<and> \<not> nx_has_node g i \<and>
        add_node g i k p = (Inr (), nx_add_node g i \<lparr>attr_type = k, attr_parameters = r\<rparr>))"
  by (auto simp: add_node_def split: sum.splits)

lemma nx_add_node_fresh:
  "\<not> nx_has_node g i \<Longrightarrow> nx_add_node g i a = g\<lparr>node_list := node_list g @ [(i, a)]\<rparr>"
  by (simp add: nx_has_node_def nx_add_node_def update_fresh map_of_eq_None_iff)

lemma node_list_add_edge [simp]: "node_list (snd (add_edge g s t)) = node_list g"
  by (simp add: add_edge_def nx_add_edge_def nx_remove_edge_def Let_def)

lemma node_list_remove_edge [simp]: "node_list (snd (remove_edge g s t)) = node_list g"
  by (simp add: remove_edge_def nx_remove_edge_def)

lemma buildable_no_columns: "buildable g \<Longrightarrow> no_columns g"
proof (induction rule: buildable.induct)
  case b_init
  then show ?case by (simp add: no_columns_def empty_graph_def)
next
  case (b_add_node g node_id node_type parameters)
  from add_node_cases [of g node_id node_type parameters] show ?case
  proof
    assume "snd (add_node g node_id node_type parameters) = g"
    with b_add_node show ?thesis by simp
  next
    assume "\<exists>r. convert_to_internal_parameters parameters = Inr r \<and> \<not> nx_has_node g node_id \<and>
        add_node g node_id node_type parameters =
          (Inr (), nx_add_node g node_id \<lparr>attr_type = node_type, attr_parameters = r\<rparr>)"
    then obtain r where r: "convert_to_internal_parameters parameters = Inr r"
      and fresh: "\<not> nx_has_node g node_id"
      and eq: "add_node g node_id node_type parameters =
          (Inr (), nx_add_node g node_id \<lparr>attr_type = node_type, attr_parameters = r\<rparr>)"
      by blast
    with b_add_node.IH convert_to_internal_no_columns [OF r] show ?thesis
      by (simp add: no_columns_def nx_add_node_fresh)
  qed
next
  case (b_remove_node g node_id)
  then show ?case
    using set_delete_subset [of node_id "node_list g"]
    by (auto simp: no_columns_def remove_node_def nx_remove_node_def list_all_iff)
next
  case (b_add_edge g source_id target_id)
  then show ?case by (simp add: no_columns_def)
next
  case (b_remove_edge g source_id target_id)
  then show ?case by (simp add: no_columns_def)
qed

lemma g_value_eq:
  "g_value = \<lparr>node_list = [(''n'', \<lparr>attr_type = ''ADD'',
       attr_parameters = [(''sources'', PList []), (''value'', PInt 5)]\<rparr>)], edge_list = []\<rparr>"
  by (simp add: g_value_def add_node_def get_operation_function_def function_registry_def
      nx_has_node_def empty_graph_def validate_parameters_def convert_to_internal_parameters_def
      nx_add_node_def)

lemma buildable_g_value: "buildable g_value"
  unfolding g_value_def by (intro buildable.intros)

section \<open>Claims about nodes, parameters and export\<close>

text \<open>
  Claim C3. Adding node \<^verbatim>\<open>C\<close> of kind \<^verbatim>\<open>ADD\<close> with parameters
  \<^verbatim>\<open>[{"column":"x"},{"value":5}]\<close> is claimed to succeed. On the code the call raises
  \<^verbatim>\<open>KeyError('columns')\<close> inside \<^verbatim>\<open>_convert_to_internal_parameters\<close>, which
  initialises the key \<^verbatim>\<open>sources\<close> and appends to the key \<^verbatim>\<open>columns\<close>; nothing is
  stored.
\<close>

theorem add_node_column_parameter_raises:
  "add_node empty_graph ''C'' ''ADD''
     (PList [PDict [(''column'', PStr ''x'')], PDict [(''value'', PInt 5)]])
   = (Inl (KeyError ''columns''), empty_graph)"
  by (simp add: add_node_def get_operation_function_def function_registry_def
      nx_has_node_def empty_graph_def validate_parameters_def convert_to_internal_parameters_def)

text \<open>
  Claim C4, as stated: adding a node whose parameter list lacks a required parameter
  fails and stores nothing. On the code, \<^verbatim>\<open>add_node("n", "SMA", [])\<close> succeeds and stores
  the node, although \<^verbatim>\<open>SMA\<close> requires \<^verbatim>\<open>window_size\<close> and \<^verbatim>\<open>column\<close>.
\<close>

theorem add_node_missing_required_counterexample:
  "get_operation_function ''SMA'' = Inr (sma_operation, [''window_size'', ''column''])
   \<and> add_node empty_graph ''n'' ''SMA'' (PList [])
       = (Inr (), \<lparr>node_list = [(''n'', sma_bare)], edge_list = []\<rparr>)"
  by (simp add: add_node_def get_operation_function_def function_registry_def
      nx_has_node_def empty_graph_def validate_parameters_def convert_to_internal_parameters_def
      nx_add_node_def sma_bare_def)

text \<open>
  Claim C4, amended: the required parameters are checked when the node is executed.
  For every registered kind and every stored parameter dict that lacks at least one
  required parameter, \<^verbatim>\<open>execute_node\<close> fails with the missing-parameter
  \<^verbatim>\<open>ValueError\<close>, whose list is exactly the absent required parameters in the
  registry's order.
\<close>

theorem execute_node_missing_parameters:
  assumes "get_operation_function (attr_type node_data) = Inr (operation_function, required_params)"
    and "filter (\<lambda>param. map_of (attr_parameters node_data) param = None) required_params \<noteq> []"
  shows "execute_node run node_data node_id =
     Inl (ValueError (MissingRequiredParameters node_id (attr_type node_data)
       (filter (\<lambda>param. map_of (attr_parameters node_data) param = None) required_params)))"
  using assms by (simp add: execute_node_def Let_def)

theorem execute_node_missing_parameters_witness:
  "get_operation_function (attr_type sma_bare) = Inr (sma_operation, [''window_size'', ''column''])
   \<and> execute_node (\<lambda>unit ps. Inr ()) sma_bare ''n'' =
       Inl (ValueError (MissingRequiredParameters ''n'' ''SMA'' [''window_size'', ''column'']))"
proof -
  have r: "get_operation_function (attr_type sma_bare) = Inr (sma_operation, [''window_size'', ''column''])"
    by (simp add: sma_bare_def get_operation_function_def function_registry_def)
  have m: "filter (\<lambda>param. map_of (attr_parameters sma_bare) param = None) [''window_size'', ''column'']
      = [''window_size'', ''column'']"
    by (simp add: sma_bare_def)
  from execute_node_missing_parameters [OF r, of "\<lambda>unit ps. Inr ()" "''n''"] m r show ?thesis
    by (simp add: sma_bare_def)
qed

text \<open>
  Claim C6. Saving then loading a buildable graph is claimed to reproduce it without
  error. On the code, saving the graph that holds the single node
  \<^verbatim>\<open>("n", "ADD", [{"value": 5}])\<close> raises \<^verbatim>\<open>KeyError('columns')\<close> in
  \<^verbatim>\<open>_convert_from_internal_parameters\<close>: no document is written.
\<close>

theorem save_stored_node_raises:
  "add_node empty_graph ''n'' ''ADD'' (PList [PDict [(''value'', PInt 5)]]) = (Inr (), g_value)
   \<and> save_to_file g_value = Inl (KeyError ''columns'')"
  by (simp add: g_value_eq save_to_file_def to_json_def export_node_def
      convert_from_internal_parameters_def
      add_node_def get_operation_function_def function_registry_def
      nx_has_node_def empty_graph_def validate_parameters_def convert_to_internal_parameters_def
      nx_add_node_def)

text \<open>
  Claim C8. Every failing \<^verbatim>\<open>add_node\<close> call leaves the graph exactly as it was, and an
  unregistered kind fails with the unsupported-node-type \<^verbatim>\<open>ValueError\<close> (the code's
  form of \<^verbatim>\<open>UnknownKindError\<close>).
\<close>

theorem add_node_failure_atomic:
  "(fst (add_node g node_id node_type parameters) = Inl e
      \<longrightarrow> snd (add_node g node_id node_type parameters) = g)
   \<and> (map_of function_registry node_type = None
      \<longrightarrow> add_node g node_id node_type parameters
            = (Inl (ValueError (AddNodeUnsupported node_type)), g))"
  by (auto simp: add_node_def get_operation_function_def split: sum.splits option.splits)

theorem add_node_failure_atomic_witness:
  "fst (add_node g_value ''n'' ''FOO'' PNone) = Inl (ValueError (AddNodeUnsupported ''FOO''))
   \<and> snd (add_node g_value ''n'' ''FOO'' PNone) = g_value
   \<and> map_of function_registry ''FOO'' = None
   \<and> add_node g_value ''n'' ''FOO'' PNone = (Inl (ValueError (AddNodeUnsupported ''FOO'')), g_value)"
proof -
  have r: "map_of function_registry ''FOO'' = None"
    by (simp add: function_registry_def)
  from add_node_failure_atomic
    [of g_value "''n''" "''FOO''" PNone "ValueError (AddNodeUnsupported ''FOO'')"] r
  show ?thesis by simp
qed

text \<open>
  Claim C9. In every graph the builder can hold, no stored node has the key
  \<^verbatim>\<open>columns\<close> in its internal parameters, and as soon as the graph has a node,
  \<^verbatim>\<open>to_json\<close> raises \<^verbatim>\<open>KeyError('columns')\<close> instead of returning a document.
\<close>

theorem to_json_raises_on_stored_node:
  assumes "buildable g"
  shows "no_columns g \<and> (node_list g \<noteq> [] \<longrightarrow> to_json g = Inl (KeyError ''columns''))"
proof -
  from assms have nc: "no_columns g" by (rule buildable_no_columns)
  have "to_json g = Inl (KeyError ''columns'')" if "node_list g \<noteq> []"
  proof -
    from that obtain n rest where nl: "node_list g = n # rest"
      by (cases "node_list g") auto
    with nc have "map_of (attr_parameters (snd n)) ''columns'' = None"
      by (simp add: no_columns_def)
    then have "export_node n = Inl (KeyError ''columns'')"
      by (simp add: export_node_def convert_from_internal_parameters_def)
    with nl show ?thesis by (simp add: to_json_def)
  qed
  with nc show ?thesis by simp
qed

theorem to_json_raises_on_stored_node_witness:
  "buildable g_value \<and> node_list g_value \<noteq> [] \<and> no_columns g_value
   \<and> to_json g_value = Inl (KeyError ''columns'')"
proof -
  have ne: "node_list g_value \<noteq> []" by (simp add: g_value_eq)
  from to_json_raises_on_stored_node [OF buildable_g_value] ne buildable_g_value
  show ?thesis by simp
qed

text \<open>
  Claim C10. For every kind other than \<^verbatim>\<open>ADD\<close> and every parameters value of any
  shape, \<^verbatim>\<open>_validate_parameters\<close> returns true. The required parameters of the kind are
  not consulted when the node is added: the outcome of \<^verbatim>\<open>add_node\<close> is decided by the
  registry lookup of the kind, the duplicate test and the parameter conversion alone, its
  only \<^verbatim>\<open>ValueError\<close>s are the unsupported kind and the duplicate id, and a node of a
  registered kind with a fresh id whose parameters convert is stored whichever required
  parameters are absent. Their presence is checked later, by \<^verbatim>\<open>execute_node\<close> on the
  stored node data: it fails with the missing-parameter \<^verbatim>\<open>ValueError\<close> listing the absent
  required parameters, and runs the operation when none is absent.
\<close>

theorem validate_parameters_other_kinds:
  assumes "node_type \<noteq> ''ADD''"
  shows "validate_parameters node_type parameters
     \<and> add_node g node_id node_type parameters =
         (case get_operation_function node_type of
            Inl e \<Rightarrow> (Inl (ValueError (AddNodeUnsupported node_type)), g)
          | Inr entry \<Rightarrow>
              if nx_has_node g node_id then (Inl (ValueError (NodeAlreadyExists node_id)), g)
              else
                (case convert_to_internal_parameters parameters of
                   Inl e \<Rightarrow> (Inl e, g)
                 | Inr internal_parameters \<Rightarrow>
                     (Inr (),
                      nx_add_node g node_id
                        \<lparr>attr_type = node_type, attr_parameters = internal_parameters\<rparr>)))
     \<and> (\<forall>ve. fst (add_node g node_id node_type parameters) = Inl (ValueError ve) \<longrightarrow>
            ve = AddNodeUnsupported node_type \<or> ve = NodeAlreadyExists node_id)
     \<and> (get_operation_function node_type = Inr (operation_function, required_params)
          \<and> \<not> nx_has_node g node_id
          \<and> convert_to_internal_parameters parameters = Inr internal_parameters
        \<longrightarrow> add_node g node_id node_type parameters =
              (Inr (), nx_add_node g node_id
                         \<lparr>attr_type = node_type, attr_parameters = internal_parameters\<rparr>)
            \<and> map_of (node_list (snd (add_node g node_id node_type parameters))) node_id =
                Some \<lparr>attr_type = node_type, attr_parameters = internal_parameters\<rparr>
            \<and> execute_node run \<lparr>attr_type = node_type, attr_parameters = internal_parameters\<rparr> node_id =
                (if filter (\<lambda>param. map_of internal_parameters param = None) required_params \<noteq> []
                 then Inl (ValueError (MissingRequiredParameters node_id node_type
                        (filter (\<lambda>param. map_of internal_parameters param = None) required_params)))
                 else run operation_function internal_parameters))"
proof -
  have v: "validate_parameters node_type parameters"
    using assms by (simp add: validate_parameters_def)
  have a: "add_node g node_id node_type parameters =
         (case get_operation_function node_type of
            Inl e \<Rightarrow> (Inl (ValueError (AddNodeUnsupported node_type)), g)
          | Inr entry \<Rightarrow>
              if nx_has_node g node_id then (Inl (ValueError (NodeAlreadyExists node_id)), g)
              else
                (case convert_to_internal_parameters parameters of
                   Inl e \<Rightarrow> (Inl e, g)
                 | Inr internal_parameters \<Rightarrow>
                     (Inr (),
                      nx_add_node g node_id
                        \<lparr>attr_type = node_type, attr_parameters = internal_parameters\<rparr>)))"
    using v by (simp add: add_node_def)
  have e: "ve = AddNodeUnsupported node_type \<or> ve = NodeAlreadyExists node_id"
    if "fst (add_node g node_id node_type parameters) = Inl (ValueError ve)" for ve
    using that convert_to_internal_no_value_error [of parameters]
    unfolding a by (auto split: sum.splits if_splits)
  have s: "add_node g node_id node_type parameters =
              (Inr (), nx_add_node g node_id
                         \<lparr>attr_type = node_type, attr_parameters = internal_parameters\<rparr>)"
    if "get_operation_function node_type = Inr (operation_function, required_params)"
      and "\<not> nx_has_node g node_id"
      and "convert_to_internal_parameters parameters = Inr internal_parameters"
    using that unfolding a by simp
  have l: "map_of (node_list (nx_add_node g node_id nd)) node_id = Some nd" for nd
    by (simp add: nx_add_node_def AList.update_conv')
  have x: "execute_node run \<lparr>attr_type = node_type, attr_parameters = internal_parameters\<rparr> node_id =
                (if filter (\<lambda>param. map_of internal_parameters param = None) required_params \<noteq> []
                 then Inl (ValueError (MissingRequiredParameters node_id node_type
                        (filter (\<lambda>param. map_of internal_parameters param = None) required_params)))
                 else run operation_function internal_parameters)"
    if "get_operation_function node_type = Inr (operation_function, required_params)"
    using that by (simp add: execute_node_def Let_def)
  show ?thesis
  proof (intro conjI allI impI)
    show "validate_parameters node_type parameters" by (rule v)
    show "add_node g node_id node_type parameters =
         (case get_operation_function node_type of
            Inl e \<Rightarrow> (Inl (ValueError (AddNodeUnsupported node_type)), g)
          | Inr entry \<Rightarrow>
              if nx_has_node g node_id then (Inl (ValueError (NodeAlreadyExists node_id)), g)
              else
                (case convert_to_internal_parameters parameters of
                   Inl e \<Rightarrow> (Inl e, g)
                 | Inr internal_parameters \<Rightarrow>
                     (Inr (),
                      nx_add_node g node_id
                        \<lparr>attr_type = node_type, attr_parameters = internal_parameters\<rparr>)))"
      by (rule a)
  next
    fix ve
    assume "fst (add_node g node_id node_type parameters) = Inl (ValueError ve)"
    then show "ve = AddNodeUnsupported node_type \<or> ve = NodeAlreadyExists node_id" by (rule e)
  next
    assume h: "get_operation_function node_type = Inr (operation_function, required_params)
          \<and> \<not> nx_has_node g node_id
          \<and> convert_to_internal_parameters parameters = Inr internal_parameters"
    then show "add_node g node_id node_type parameters =
              (Inr (), nx_add_node g node_id
                         \<lparr>attr_type = node_type, attr_parameters = internal_parameters\<rparr>)"
      by (intro s) simp_all
    from h show "map_of (node_list (snd (add_node g node_id node_type parameters))) node_id =
                Some \<lparr>attr_type = node_type, attr_parameters = internal_parameters\<rparr>"
      by (simp add: s l)
    from h show "execute_node run \<lparr>attr_type = node_type, attr_parameters = internal_parameters\<rparr> node_id =
                (if filter (\<lambda>param. map_of internal_parameters param = None) required_params \<noteq> []
                 then Inl (ValueError (MissingRequiredParameters node_id node_type
                        (filter (\<lambda>param. map_of internal_parameters param = None) required_params)))
                 else run operation_function internal_parameters)"
      by (intro x) simp
  qed
qed

theorem validate_parameters_other_kinds_witness:
  "''ADX'' \<noteq> ''ADD''
   \<and> validate_parameters ''ADX'' (PList [PDict [(''value'', PInt 3)]])
   \<and> get_operation_function ''ADX''
       = Inr (adx_operation, [''high'', ''low'', ''close'', ''time_period''])
   \<and> \<not> nx_has_node empty_graph ''x''
   \<and> convert_to_internal_parameters (PList [PDict [(''value'', PInt 3)]])
       = Inr [(''sources'', PList []), (''value'', PInt 3)]
   \<and> add_node empty_graph ''x'' ''ADX'' (PList [PDict [(''value'', PInt 3)]])
       = (Inr (), \<lparr>node_list = [(''x'', \<lparr>attr_type = ''ADX'',
                     attr_parameters = [(''sources'', PList []), (''value'', PInt 3)]\<rparr>)],
                  edge_list = []\<rparr>)
   \<and> execute_node (\<lambda>unit ps. Inr ())
        \<lparr>attr_type = ''ADX'', attr_parameters = [(''sources'', PList []), (''value'', PInt 3)]\<rparr> ''x''
       = Inl (ValueError (MissingRequiredParameters ''x'' ''ADX''
            [''high'', ''low'', ''close'', ''time_period'']))"
proof -
  have ne: "''ADX'' \<noteq> ''ADD''" by simp
  have r: "get_operation_function ''ADX''
       = Inr (adx_operation, [''high'', ''low'', ''close'', ''time_period''])"
    by (simp add: get_operation_function_def function_registry_def)
  have f: "\<not> nx_has_node empty_graph ''x''"
    by (simp add: nx_has_node_def empty_graph_def)
  have c: "convert_to_internal_parameters (PList [PDict [(''value'', PInt 3)]])
       = Inr [(''sources'', PList []), (''value'', PInt 3)]"
    by (simp add: convert_to_internal_parameters_def)
  note t = validate_parameters_other_kinds [OF ne,
      where parameters = "PList [PDict [(''value'', PInt 3)]]" and g = empty_graph
        and node_id = "''x''" and operation_function = adx_operation
        and required_params = "[''high'', ''low'', ''close'', ''time_period'']"
        and internal_parameters = "[(''sources'', PList []), (''value'', PInt 3)]"
        and run = "\<lambda>unit ps. Inr ()"]
  from t have v: "validate_parameters ''ADX'' (PList [PDict [(''value'', PInt 3)]])"
    by (rule conjunct1)
  from t r f c have a: "add_node empty_graph ''x'' ''ADX'' (PList [PDict [(''value'', PInt 3)]])
       = (Inr (), nx_add_node empty_graph ''x'' \<lparr>attr_type = ''ADX'',
                     attr_parameters = [(''sources'', PList []), (''value'', PInt 3)]\<rparr>)"
    by blast
  from t r f c have x: "execute_node (\<lambda>unit ps. Inr ())
        \<lparr>attr_type = ''ADX'', attr_parameters = [(''sources'', PList []), (''value'', PInt 3)]\<rparr> ''x''
       = (if filter (\<lambda>param. map_of [(''sources'', PList []), (''value'', PInt 3)] param = None)
               [''high'', ''low'', ''close'', ''time_period''] \<noteq> []
          then Inl (ValueError (MissingRequiredParameters ''x'' ''ADX''
                 (filter (\<lambda>param. map_of [(''sources'', PList []), (''value'', PInt 3)] param = None)
                    [''high'', ''low'', ''close'', ''time_period''])))
          else Inr ())"
    by blast
  from ne v r f c a x show ?thesis
    by (simp add: nx_add_node_def empty_graph_def)
qed

section \<open>The cycle check and the graph invariants\<close>

lemma set_nexts: "set (map snd (filter (\<lambda>e. fst e = x) es)) = set es `` {x}"
  by force

lemma dfs_visited_subset: "set visited \<subseteq> set (dfs es stack visited)"
  by (induction es stack visited rule: dfs.induct) auto

lemma dfs_stack_subset: "set stack \<subseteq> set (dfs es stack visited)"
proof (induction es stack visited rule: dfs.induct)
  case (1 es visited)
  then show ?case by simp
next
  case (2 es x stack visited)
  show ?case
  proof (cases "x \<in> set visited")
    case True
    with 2 dfs_visited_subset [of visited es stack] show ?thesis by auto
  next
    case False
    with 2 dfs_visited_subset [of "x # visited" es "map snd (filter (\<lambda>e. fst e = x) es) @ stack"]
    show ?thesis by auto
  qed
qed

lemma dfs_closed:
  "set es `` set visited \<subseteq> set visited \<union> set stack
     \<Longrightarrow> set es `` set (dfs es stack visited) \<subseteq> set (dfs es stack visited)"
proof (induction es stack visited rule: dfs.induct)
  case (1 es visited)
  then show ?case by simp
next
  case (2 es x stack visited)
  show ?case
  proof (cases "x \<in> set visited")
    case True
    with 2 show ?thesis by auto
  next
    case False
    have "set es `` set (x # visited)
        \<subseteq> set (x # visited) \<union> set (map snd (filter (\<lambda>e. fst e = x) es) @ stack)"
      using "2.prems" by (auto simp: set_nexts simp del: set_map)
    from "2.IH"(2) [OF False this] False show ?thesis by simp
  qed
qed

lemma dfs_sound: "set (dfs es stack visited) \<subseteq> set visited \<union> (set es)\<^sup>* `` set stack"
proof (induction es stack visited rule: dfs.induct)
  case (1 es visited)
  then show ?case by simp
next
  case (2 es x stack visited)
  show ?case
  proof (cases "x \<in> set visited")
    case True
    with 2 show ?thesis by auto
  next
    case False
    have "(set es)\<^sup>* `` (set es `` {x}) \<subseteq> (set es)\<^sup>* `` {x}"
      by (auto intro: converse_rtrancl_into_rtrancl)
    with "2.IH"(2) [OF False] False show ?thesis
      by (auto simp: set_nexts Image_Un simp del: set_map)
  qed
qed

lemma closed_rtrancl_image: "r `` X \<subseteq> X \<Longrightarrow> r\<^sup>* `` X \<subseteq> X"
proof
  fix y assume c: "r `` X \<subseteq> X" and "y \<in> r\<^sup>* `` X"
  then obtain x where "x \<in> X" and "(x, y) \<in> r\<^sup>*" by auto
  from this(2) this(1) c show "y \<in> X"
    by (induction rule: rtrancl_induct) auto
qed

lemma reaches_iff: "reaches es a b \<longleftrightarrow> (a, b) \<in> (set es)\<^sup>*"
proof
  assume "reaches es a b"
  with dfs_sound [of es "[a]" "[]"] show "(a, b) \<in> (set es)\<^sup>*"
    by (auto simp: reaches_def)
next
  assume ab: "(a, b) \<in> (set es)\<^sup>*"
  have "set es `` set (dfs es [a] []) \<subseteq> set (dfs es [a] [])"
    by (rule dfs_closed) simp
  then have "(set es)\<^sup>* `` set (dfs es [a] []) \<subseteq> set (dfs es [a] [])"
    by (rule closed_rtrancl_image)
  moreover have "a \<in> set (dfs es [a] [])"
    using dfs_stack_subset [of "[a]" es "[]"] by simp
  ultimately show "reaches es a b"
    using ab by (auto simp: reaches_def)
qed

lemma simple_cycles_nonempty_iff:
  "simple_cycles_nonempty g \<longleftrightarrow> \<not> acyclic (set (edge_list g))"
proof
  assume "simple_cycles_nonempty g"
  then obtain u v where e: "(u, v) \<in> set (edge_list g)" and r: "(v, u) \<in> (set (edge_list g))\<^sup>*"
    by (auto simp: simple_cycles_nonempty_def list_ex_iff reaches_iff)
  then have "(u, u) \<in> (set (edge_list g))\<^sup>+"
    by (meson rtrancl_into_trancl2)
  then show "\<not> acyclic (set (edge_list g))"
    by (auto simp: acyclic_def)
next
  assume "\<not> acyclic (set (edge_list g))"
  then obtain x where "(x, x) \<in> (set (edge_list g))\<^sup>+"
    by (auto simp: acyclic_def)
  then obtain y where "(x, y) \<in> set (edge_list g)" and "(y, x) \<in> (set (edge_list g))\<^sup>*"
    by (meson tranclD)
  then have "\<exists>e \<in> set (edge_list g). (snd e, fst e) \<in> (set (edge_list g))\<^sup>*"
    by (intro bexI [of _ "(x, y)"]) simp_all
  then show "simple_cycles_nonempty g"
    by (simp add: simple_cycles_nonempty_def list_ex_iff reaches_iff)
qed

lemma set_edges_nx_add_edge: "set (edge_list (nx_add_edge g s t)) = insert (s, t) (set (edge_list g))"
  by (auto simp: nx_add_edge_def nx_has_edge_def)

lemma cycle_through_new_edge:
  "(t, s) \<in> r\<^sup>* \<Longrightarrow> \<not> acyclic (insert (s, t) r)"
proof -
  assume "(t, s) \<in> r\<^sup>*"
  then have "(t, s) \<in> (insert (s, t) r)\<^sup>*"
    by (rule rtrancl_mono [THEN subsetD, rotated]) auto
  then have "(s, s) \<in> (insert (s, t) r)\<^sup>+"
    by (meson insertI1 rtrancl_into_trancl2)
  then show ?thesis by (auto simp: acyclic_def)
qed

lemma acyclic_insert_iff':
  "acyclic r \<Longrightarrow> acyclic (insert (s, t) r) \<longleftrightarrow> (t, s) \<notin> r\<^sup>*"
  by (simp add: acyclic_insert)

lemma nx_remove_added_edge:
  "(s, t) \<notin> set (edge_list g) \<Longrightarrow> nx_remove_edge (nx_add_edge g s t) s t = g"
  by (simp add: nx_remove_edge_def nx_add_edge_def nx_has_edge_def)

lemma nx_has_node_iff: "nx_has_node g n \<longleftrightarrow> n \<in> set (node_ids g)"
  by (simp add: nx_has_node_def node_ids_def map_of_eq_None_iff)

lemma edge_list_add_node [simp]: "edge_list (snd (add_node g i k p)) = edge_list g"
  using add_node_cases [of g i k p] by (auto simp: nx_add_node_def)

lemma node_ids_add_node:
  "node_ids (snd (add_node g i k p)) = node_ids g \<or>
   (i \<notin> set (node_ids g) \<and> node_ids (snd (add_node g i k p)) = node_ids g @ [i])"
  using add_node_cases [of g i k p]
  by (auto simp: nx_add_node_fresh node_ids_def nx_has_node_iff [unfolded node_ids_def])

lemma add_edge_cases:
  "snd (add_edge g s t) = g \<or>
   (nx_has_node g s \<and> nx_has_node g t \<and>
      ((\<not> simple_cycles_nonempty (nx_add_edge g s t) \<and> snd (add_edge g s t) = nx_add_edge g s t) \<or>
       snd (add_edge g s t) = nx_remove_edge (nx_add_edge g s t) s t))"
  by (auto simp: add_edge_def Let_def)

lemma wf_graph_nx_add_edge:
  "wf_graph g \<Longrightarrow> nx_has_node g s \<Longrightarrow> nx_has_node g t \<Longrightarrow> wf_graph (nx_add_edge g s t)"
  by (auto simp: wf_graph_def nx_add_edge_def nx_has_edge_def nx_has_node_iff node_ids_def list_all_iff)

lemma wf_graph_nx_remove_edge: "wf_graph g \<Longrightarrow> wf_graph (nx_remove_edge g s t)"
  by (auto simp: wf_graph_def nx_remove_edge_def nx_has_node_iff node_ids_def list_all_iff distinct_removeAll)

lemma nx_has_node_remove_node:
  "nx_has_node (nx_remove_node g n) a \<longleftrightarrow> a \<noteq> n \<and> nx_has_node g a"
  by (simp add: nx_has_node_def nx_remove_node_def AList.delete_conv')

lemma wf_graph_nx_remove_node: "wf_graph g \<Longrightarrow> wf_graph (nx_remove_node g n)"
  unfolding wf_graph_def list_all_iff nx_has_node_remove_node
  by (auto simp: nx_remove_node_def node_ids_def AList.distinct_delete)

lemma buildable_wf: "buildable g \<Longrightarrow> wf_graph g"
proof (induction rule: buildable.induct)
  case b_init
  then show ?case by (simp add: wf_graph_def empty_graph_def node_ids_def)
next
  case (b_add_node g node_id node_type parameters)
  with node_ids_add_node [of g node_id node_type parameters] show ?case
    by (auto simp: wf_graph_def nx_has_node_iff list_all_iff)
next
  case (b_remove_node g node_id)
  then show ?case by (simp add: remove_node_def wf_graph_nx_remove_node)
next
  case (b_add_edge g source_id target_id)
  with add_edge_cases [of g source_id target_id] show ?case
    by (auto simp: wf_graph_nx_add_edge wf_graph_nx_remove_edge)
next
  case (b_remove_edge g source_id target_id)
  then show ?case by (simp add: remove_edge_def wf_graph_nx_remove_edge)
qed

lemma acyclic_nx_remove_edge:
  "acyclic (set (edge_list g)) \<Longrightarrow> acyclic (set (edge_list (nx_remove_edge g s t)))"
  by (rule acyclic_subset) (auto simp: nx_remove_edge_def)

lemma buildable_acyclic: "buildable g \<Longrightarrow> acyclic (set (edge_list g))"
proof (induction rule: buildable.induct)
  case b_init
  then show ?case by (simp add: empty_graph_def acyclic_def)
next
  case (b_add_node g node_id node_type parameters)
  then show ?case by simp
next
  case (b_remove_node g node_id)
  then show ?case
    by (auto simp: remove_node_def nx_remove_node_def intro: acyclic_subset)
next
  case (b_add_edge g source_id target_id)
  have "acyclic (set (edge_list (nx_remove_edge (nx_add_edge g source_id target_id) source_id target_id)))"
    by (rule acyclic_subset [OF b_add_edge.IH])
       (auto simp: nx_remove_edge_def set_edges_nx_add_edge)
  with b_add_edge.IH add_edge_cases [of g source_id target_id] show ?case
    by (auto simp: simple_cycles_nonempty_iff)
next
  case (b_remove_edge g source_id target_id)
  then show ?case by (simp add: remove_edge_def acyclic_nx_remove_edge)
qed

lemma g_ab_eq:
  "g_ab = \<lparr>node_list = [(''A'', \<lparr>attr_type = ''ADD'', attr_parameters = [(''sources'', PList [])]\<rparr>),
                         (''B'', \<lparr>attr_type = ''SMA'', attr_parameters = [(''sources'', PList [])]\<rparr>)],
           edge_list = [(''A'', ''B'')]\<rparr>"
  by (simp add: g_ab_def add_node_def get_operation_function_def function_registry_def
      nx_has_node_def empty_graph_def validate_parameters_def convert_to_internal_parameters_def
      nx_add_node_def add_edge_def nx_add_edge_def nx_has_edge_def simple_cycles_nonempty_def
      reaches_def Let_def)

lemma buildable_g_ab: "buildable g_ab"
  unfolding g_ab_def by (intro buildable.intros)

lemma add_edge_rolls_back:
  assumes "nx_has_node g source_id" and "nx_has_node g target_id"
    and "(target_id, source_id) \<in> (set (edge_list g))\<^sup>*"
    and "(source_id, target_id) \<notin> set (edge_list g) \<or> acyclic (set (edge_list g))"
  shows "add_edge g source_id target_id = (Inl (ValueError EdgeWouldCreateCycle), g)"
proof -
  have new: "(source_id, target_id) \<notin> set (edge_list g)"
  proof
    assume e: "(source_id, target_id) \<in> set (edge_list g)"
    with assms(3) have "(source_id, source_id) \<in> (set (edge_list g))\<^sup>+"
      by (meson rtrancl_into_trancl2)
    with e assms(4) show False by (auto simp: acyclic_def)
  qed
  have "simple_cycles_nonempty (nx_add_edge g source_id target_id)"
    using cycle_through_new_edge [OF assms(3)]
    by (simp add: simple_cycles_nonempty_iff set_edges_nx_add_edge)
  with assms(1,2) nx_remove_added_edge [OF new] show ?thesis
    by (simp add: add_edge_def Let_def)
qed

section \<open>Claims about edges\<close>

text \<open>
  Claim C2. For two existing nodes, when adding the edge \<^verbatim>\<open>(source, target)\<close> would create
  a cycle (the target already reaches the source, and the edge is not yet in the graph,
  which is automatic in an acyclic graph), \<^verbatim>\<open>add_edge\<close> fails with the cycle
  \<^verbatim>\<open>ValueError\<close> and the graph after the call is the graph before it.
\<close>

theorem add_edge_cycle_leaves_graph:
  assumes "nx_has_node g source_id" and "nx_has_node g target_id"
    and "(target_id, source_id) \<in> (set (edge_list g))\<^sup>*"
    and "(source_id, target_id) \<notin> set (edge_list g) \<or> acyclic (set (edge_list g))"
  shows "add_edge g source_id target_id = (Inl (ValueError EdgeWouldCreateCycle), g)"
  using assms by (rule add_edge_rolls_back)

theorem add_edge_cycle_leaves_graph_witness:
  "nx_has_node g_ab ''B'' \<and> nx_has_node g_ab ''A''
   \<and> (''A'', ''B'') \<in> (set (edge_list g_ab))\<^sup>*
   \<and> (''B'', ''A'') \<notin> set (edge_list g_ab)
   \<and> add_edge g_ab ''B'' ''A'' = (Inl (ValueError EdgeWouldCreateCycle), g_ab)
   \<and> edge_list g_ab = [(''A'', ''B'')]"
proof -
  have b: "nx_has_node g_ab ''B''" and a: "nx_has_node g_ab ''A''"
    by (simp_all add: g_ab_eq nx_has_node_def)
  have p: "(''A'', ''B'') \<in> (set (edge_list g_ab))\<^sup>*"
    by (rule r_into_rtrancl) (simp add: g_ab_eq)
  have n: "(''B'', ''A'') \<notin> set (edge_list g_ab)"
    by (simp add: g_ab_eq)
  from add_edge_cycle_leaves_graph [OF b a p disjI1 [OF n]] a b p n show ?thesis
    by (simp add: g_ab_eq)
qed

text \<open>
  Claim C5. On an acyclic graph \<^verbatim>\<open>add_edge\<close> returns what the specified search-based
  insertion returns: the node-missing error when an endpoint is absent; the cycle error
  exactly when the target reaches the source, which is what the depth-first search from
  the target decides; otherwise success with exactly that edge added and the nodes kept.
\<close>

theorem add_edge_refines_search:
  assumes "acyclic (set (edge_list g))"
  shows "add_edge g source_id target_id = spec_add_edge g source_id target_id
     \<and> (reaches (edge_list g) target_id source_id
          \<longleftrightarrow> (target_id, source_id) \<in> (set (edge_list g))\<^sup>*)
     \<and> set (edge_list (nx_add_edge g source_id target_id))
          = insert (source_id, target_id) (set (edge_list g))
     \<and> node_list (nx_add_edge g source_id target_id) = node_list g"
proof -
  have nl: "node_list (nx_add_edge g source_id target_id) = node_list g"
    by (simp add: nx_add_edge_def)
  have eq: "add_edge g source_id target_id = spec_add_edge g source_id target_id"
  proof (cases "nx_has_node g source_id \<and> nx_has_node g target_id")
    case False
    then show ?thesis by (auto simp: add_edge_def spec_add_edge_def)
  next
    case True
    show ?thesis
    proof (cases "(target_id, source_id) \<in> (set (edge_list g))\<^sup>*")
      case path: True
      from True path assms
      have "add_edge g source_id target_id = (Inl (ValueError EdgeWouldCreateCycle), g)"
        by (intro add_edge_rolls_back) auto
      with True path show ?thesis
        by (simp add: spec_add_edge_def reaches_iff)
    next
      case nopath: False
      with assms have "acyclic (set (edge_list (nx_add_edge g source_id target_id)))"
        by (simp add: set_edges_nx_add_edge acyclic_insert)
      with True nopath show ?thesis
        by (simp add: add_edge_def spec_add_edge_def Let_def simple_cycles_nonempty_iff reaches_iff)
    qed
  qed
  with nl show ?thesis
    by (simp add: reaches_iff set_edges_nx_add_edge)
qed

theorem add_edge_refines_search_witness:
  "acyclic (set (edge_list g_ab))
   \<and> add_edge g_ab ''B'' ''A'' = spec_add_edge g_ab ''B'' ''A''
   \<and> spec_add_edge g_ab ''B'' ''A'' = (Inl (ValueError EdgeWouldCreateCycle), g_ab)
   \<and> reaches (edge_list g_ab) ''A'' ''B''"
proof -
  have ac: "acyclic (set (edge_list g_ab))"
    by (rule buildable_acyclic [OF buildable_g_ab])
  have r: "reaches (edge_list g_ab) ''A'' ''B''"
    by (simp add: g_ab_eq reaches_def)
  then have "spec_add_edge g_ab ''B'' ''A'' = (Inl (ValueError EdgeWouldCreateCycle), g_ab)"
    by (simp add: spec_add_edge_def) (simp add: g_ab_eq nx_has_node_def)
  with add_edge_refines_search [OF ac, of "''B''" "''A''"] ac r show ?thesis
    by simp
qed

section \<open>The resolver: Kahn's loop\<close>

lemma finite_preds: "finite {u. (u, n) \<in> set es \<and> P u}"
proof -
  have "{u. (u, n) \<in> set es \<and> P u} \<subseteq> fst ` set es" by force
  then show ?thesis by (rule finite_subset) simp
qed

lemma unmet_zero_iff:
  "unmet g finished n = 0 \<longleftrightarrow> (\<forall>u. (u, n) \<in> set (edge_list g) \<longrightarrow> u \<in> finished)"
  by (auto simp: unmet_def finite_preds)

lemma unmet_insert:
  assumes "x \<notin> finished"
  shows "unmet g (insert x finished) n =
     unmet g finished n - (if (x, n) \<in> set (edge_list g) then 1 else 0)"
proof -
  have eq: "{u. (u, n) \<in> set (edge_list g) \<and> u \<notin> insert x finished}
      = {u. (u, n) \<in> set (edge_list g) \<and> u \<notin> finished} - {x}"
    by auto
  show ?thesis
  proof (cases "(x, n) \<in> set (edge_list g)")
    case True
    with assms have "x \<in> {u. (u, n) \<in> set (edge_list g) \<and> u \<notin> finished}" by simp
    then have c: "card ({u. (u, n) \<in> set (edge_list g) \<and> u \<notin> finished} - {x})
        = card {u. (u, n) \<in> set (edge_list g) \<and> u \<notin> finished} - 1"
      by (rule card_Diff_singleton)
    show ?thesis
      unfolding unmet_def eq by (simp only: c True if_True)
  next
    case False
    then have same: "{u. (u, n) \<in> set (edge_list g) \<and> u \<notin> finished} - {x}
        = {u. (u, n) \<in> set (edge_list g) \<and> u \<notin> finished}" by auto
    show ?thesis
      unfolding unmet_def eq same using False by simp
  qed
qed

lemma unmet_pos: "(x, n) \<in> set (edge_list g) \<Longrightarrow> x \<notin> finished \<Longrightarrow> 0 < unmet g finished n"
  by (metis unmet_zero_iff not_gr_zero)

lemma in_degree_unmet:
  assumes "distinct (edge_list g)"
  shows "in_degree g n = int (unmet g {} n)"
proof -
  let ?F = "filter (\<lambda>e. snd e = n) (edge_list g)"
  have "distinct ?F" using assms by simp
  then have "length ?F = card (set ?F)" by (rule distinct_card [symmetric])
  also have "set ?F = (\<lambda>u. (u, n)) ` {u. (u, n) \<in> set (edge_list g)}" by force
  also have "card \<dots> = card {u. (u, n) \<in> set (edge_list g)}"
    by (rule card_image) (simp add: inj_on_def)
  finally show ?thesis by (simp add: in_degree_def unmet_def)
qed

lemma set_successors: "set (successors g x) = {n. (x, n) \<in> set (edge_list g)}"
  by (force simp: successors_def)

lemma distinct_successors: "distinct (edge_list g) \<Longrightarrow> distinct (successors g x)"
  unfolding successors_def
  by (rule distinct_map [THEN iffD2]) (auto simp: inj_on_def)

lemma decrement_successors_result:
  assumes "distinct ss" and "\<forall>s \<in> set ss. map_of m s \<noteq> None"
  shows "\<exists>m'. decrement_successors ss m q = Inr (m', q @ filter (\<lambda>s. map_of m s = Some 1) ss)
           \<and> (\<forall>n. map_of m' n =
                (if n \<in> set ss then map_option (\<lambda>d. d - 1) (map_of m n) else map_of m n))"
  using assms
proof (induction ss arbitrary: m q)
  case Nil
  then show ?case by simp
next
  case (Cons s ss)
  then obtain d where d: "map_of m s = Some d" by auto
  let ?m1 = "AList.update s (d - 1) m"
  let ?q1 = "if d - 1 = 0 then q @ [s] else q"
  have m1: "map_of ?m1 = (map_of m)(s \<mapsto> d - 1)" by (rule AList.update_conv')
  from Cons.prems have s: "s \<notin> set ss" and dss: "distinct ss" by auto
  have "\<forall>t \<in> set ss. map_of ?m1 t \<noteq> None"
    using Cons.prems(2) by (simp add: m1)
  from Cons.IH [OF dss this, of ?q1] obtain m' where
    run: "decrement_successors ss ?m1 ?q1 = Inr (m', ?q1 @ filter (\<lambda>t. map_of ?m1 t = Some 1) ss)"
    and look: "\<forall>n. map_of m' n =
        (if n \<in> set ss then map_option (\<lambda>d. d - 1) (map_of ?m1 n) else map_of ?m1 n)"
    by blast
  have f: "filter (\<lambda>t. map_of ?m1 t = Some 1) ss = filter (\<lambda>t. map_of m t = Some 1) ss"
    using s by (intro filter_cong) (auto simp: m1)
  have q: "?q1 @ filter (\<lambda>t. map_of m t = Some 1) ss
      = q @ filter (\<lambda>t. map_of m t = Some 1) (s # ss)"
    using d by auto
  have "decrement_successors (s # ss) m q
      = Inr (m', q @ filter (\<lambda>t. map_of m t = Some 1) (s # ss))"
    using d run f q by simp
  moreover have "\<forall>n. map_of m' n =
      (if n \<in> set (s # ss) then map_option (\<lambda>d. d - 1) (map_of m n) else map_of m n)"
    using look s d by (auto simp: m1)
  ultimately show ?case by blast
qed

lemma plan_index_append_mem:
  "n \<in> set (map snd p) \<Longrightarrow> plan_index (p @ q) n = plan_index p n"
  by (induction p) auto

lemma plan_index_less: "n \<in> set (map snd p) \<Longrightarrow> plan_index p n < length p"
  by (induction p) auto

lemma plan_index_append_new:
  "n \<notin> set (map snd p) \<Longrightarrow> plan_index (p @ [(a, n)]) n = length p"
  by (induction p) auto

lemma kahn_step:
  assumes wf: "wf_graph g" and inv: "kahn_inv g (x # q) m v p"
  shows "\<exists>a m'. map_of (node_list g) x = Some a
      \<and> decrement_successors (successors g x) m q
            = Inr (m', q @ filter (\<lambda>s. map_of m s = Some 1) (successors g x))
      \<and> kahn_inv g (q @ filter (\<lambda>s. map_of m s = Some 1) (successors g x)) m'
            (List.insert x v) (p @ [(a, x)])"
proof -
  define D where "D = set (map snd p)"
  define N where "N = set (node_ids g)"
  define E where "E = set (edge_list g)"
  define new where "new = filter (\<lambda>s. map_of m s = Some 1) (successors g x)"
  from inv have i1: "distinct (map snd p @ x # q)"
    and i2: "set (map snd p @ x # q) \<subseteq> N"
    and i3: "distinct v" "set v = D"
    unfolding kahn_inv_def D_def N_def by simp_all
  from inv have i4: "map_of m n = (if n \<in> N then Some (int (unmet g D n)) else None)" for n
    unfolding kahn_inv_def D_def N_def by simp
  from inv have i5: "unmet g D n = 0 \<longleftrightarrow> n \<in> D \<union> set (x # q)" if "n \<in> N" for n
    using that unfolding kahn_inv_def D_def N_def by blast
  from inv have i6: "u \<in> D \<and> plan_index p u < plan_index p w" if "(u, w) \<in> E" "w \<in> D" for u w
    using that unfolding kahn_inv_def D_def E_def by fastforce
  from wf have dE: "distinct (edge_list g)" by (simp add: wf_graph_def)
  from wf have ends: "u \<in> N \<and> w \<in> N" if "(u, w) \<in> E" for u w
    using that unfolding wf_graph_def list_all_iff nx_has_node_iff N_def E_def by fastforce
  from i1 i2 have xN: "x \<in> N" and xD: "x \<notin> D" and xq: "x \<notin> set q"
    by (auto simp: D_def)
  from xN have "map_of (node_list g) x \<noteq> None"
    unfolding N_def node_ids_def by (simp add: map_of_eq_None_iff)
  then obtain a where a: "map_of (node_list g) x = Some a" by blast
  have dss: "distinct (successors g x)" by (rule distinct_successors [OF dE])
  have sss: "s \<in> set (successors g x) \<longleftrightarrow> (x, s) \<in> E" for s
    by (simp add: set_successors E_def)
  have keys: "\<forall>s \<in> set (successors g x). map_of m s \<noteq> None"
    using ends by (auto simp: sss i4)
  from decrement_successors_result [OF dss keys, of q] obtain m' where
    run: "decrement_successors (successors g x) m q = Inr (m', q @ new)"
    and look: "\<And>n. map_of m' n =
        (if n \<in> set (successors g x) then map_option (\<lambda>d. d - 1) (map_of m n) else map_of m n)"
    unfolding new_def by blast
  have ux: "u \<in> D" if "(u, x) \<in> E" for u
    using i5 [OF xN] that by (auto simp: unmet_zero_iff E_def)
  have new_char: "s \<in> set new \<longleftrightarrow> (x, s) \<in> E \<and> unmet g D s = 1" for s
    using ends [of x s] by (auto simp: new_def sss i4)
  have new_fresh: "s \<notin> D \<and> s \<noteq> x \<and> s \<notin> set q \<and> s \<in> N" if "s \<in> set new" for s
  proof -
    from that have e: "(x, s) \<in> E" and u: "unmet g D s = 1" by (simp_all add: new_char)
    from e have sN: "s \<in> N" using ends by blast
    from i5 [OF sN] u show ?thesis using sN by auto
  qed
  have D': "set (map snd (p @ [(a, x)])) = insert x D" by (simp add: D_def)
  have um: "unmet g (insert x D) n = unmet g D n - (if (x, n) \<in> E then 1 else 0)" for n
    using unmet_insert [OF xD] by (simp add: E_def)
  have pos: "0 < unmet g D n" if "(x, n) \<in> E" for n
    using unmet_pos [of x n g D] that xD by (simp add: E_def)
  have p1: "distinct (map snd (p @ [(a, x)]) @ q @ new)"
    using i1 new_fresh dss by (auto simp: new_def D_def)
  have p2: "set (map snd (p @ [(a, x)]) @ q @ new) \<subseteq> N"
    using i2 new_fresh by auto
  have p3: "distinct (List.insert x v)" "set (List.insert x v) = insert x D"
    using i3 by (simp_all add: List.insert_def) auto
  have p4: "map_of m' n = (if n \<in> N then Some (int (unmet g (insert x D) n)) else None)" for n
  proof (cases "(x, n) \<in> E")
    case True
    with ends have "n \<in> N" by blast
    with True pos [OF True] show ?thesis
      by (simp add: look sss i4 um)
  next
    case False
    then show ?thesis by (simp add: look sss i4 um)
  qed
  have p5: "unmet g (insert x D) n = 0 \<longleftrightarrow> n \<in> insert x D \<union> set (q @ new)" if nN: "n \<in> N" for n
  proof (cases "(x, n) \<in> E")
    case True
    from pos [OF True] i5 [OF nN] have "n \<notin> D \<union> set (x # q)" by simp
    with True show ?thesis
      using pos [OF True] by (auto simp: um new_char)
  next
    case False
    with i5 [OF nN] show ?thesis
      by (auto simp: um new_char)
  qed
  have p6: "u \<in> insert x D
      \<and> plan_index (p @ [(a, x)]) u < plan_index (p @ [(a, x)]) w"
    if e: "(u, w) \<in> E" and w: "w \<in> insert x D" for u w
  proof (cases "w = x")
    case True
    with e have uD: "u \<in> D" by (simp add: ux)
    then have "plan_index (p @ [(a, x)]) u = plan_index p u" and "plan_index p u < length p"
      by (simp_all add: D_def plan_index_append_mem plan_index_less del: set_map)
    moreover have "plan_index (p @ [(a, x)]) x = length p"
      using xD by (simp add: D_def plan_index_append_new del: set_map)
    ultimately show ?thesis using uD True by simp
  next
    case False
    with w have wD: "w \<in> D" by simp
    from i6 [OF e wD] have uD: "u \<in> D" and lt: "plan_index p u < plan_index p w" by simp_all
    from uD wD have "plan_index (p @ [(a, x)]) u = plan_index p u"
      and "plan_index (p @ [(a, x)]) w = plan_index p w"
      by (simp_all add: D_def plan_index_append_mem del: set_map)
    with lt uD show ?thesis by simp
  qed
  have "kahn_inv g (q @ new) m' (List.insert x v) (p @ [(a, x)])"
    unfolding kahn_inv_def D'
  proof (intro conjI allI ballI impI)
    show "distinct (map snd (p @ [(a, x)]) @ q @ new)" by (rule p1)
    show "set (map snd (p @ [(a, x)]) @ q @ new) \<subseteq> set (node_ids g)"
      using p2 by (simp only: N_def)
    show "distinct (List.insert x v)" by (rule p3)
    show "set (List.insert x v) = insert x D" by (rule p3)
    show "map_of m' n =
        (if n \<in> set (node_ids g) then Some (int (unmet g (insert x D) n)) else None)" for n
      using p4 [of n] by (simp only: N_def)
    show "unmet g (insert x D) n = 0 \<longleftrightarrow> n \<in> insert x D \<union> set (q @ new)"
      if "n \<in> set (node_ids g)" for n
      using that p5 [of n] by (simp only: N_def)
    show "fst e \<in> insert x D"
      if "e \<in> set (edge_list g)" and "snd e \<in> insert x D" for e
      using that p6 [of "fst e" "snd e"] by (simp add: E_def)
    show "plan_index (p @ [(a, x)]) (fst e) < plan_index (p @ [(a, x)]) (snd e)"
      if "e \<in> set (edge_list g)" and "snd e \<in> insert x D" for e
      using that p6 [of "fst e" "snd e"] by (simp add: E_def)
  qed
  with a run show ?thesis unfolding new_def by blast
qed

lemma kahn_loop_total:
  assumes "wf_graph g" and "kahn_inv g q m v p"
  shows "\<exists>v' p' m'. kahn_loop g q m v p = Inr (v', p') \<and> kahn_inv g [] m' v' p'"
  using assms
proof (induction g q m v p rule: kahn_loop.induct)
  case (1 g indegree_map visited execution_plan)
  then show ?case by auto
next
  case (2 g node queue indegree_map visited execution_plan)
  let ?new = "filter (\<lambda>s. map_of indegree_map s = Some 1) (successors g node)"
  from kahn_step [OF "2.prems"] obtain a m' where
    a: "map_of (node_list g) node = Some a"
    and run: "decrement_successors (successors g node) indegree_map queue = Inr (m', queue @ ?new)"
    and inv: "kahn_inv g (queue @ ?new) m' (List.insert node visited) (execution_plan @ [(a, node)])"
    by blast
  from "2.IH" [OF a run refl "2.prems"(1) inv] obtain v' p' m'' where
    "kahn_loop g (queue @ ?new) m' (List.insert node visited) (execution_plan @ [(a, node)])
       = Inr (v', p')"
    and "kahn_inv g [] m'' v' p'"
    by blast
  moreover have "kahn_loop g (node # queue) indegree_map visited execution_plan
      = kahn_loop g (queue @ ?new) m' (List.insert node visited) (execution_plan @ [(a, node)])"
    by (simp add: a run)
  ultimately show ?case by auto
qed

lemma kahn_final_covers:
  assumes wf: "wf_graph g" and ac: "acyclic (set (edge_list g))"
    and inv: "kahn_inv g [] m v p"
  shows "set (map snd p) = set (node_ids g)"
proof -
  define D where "D = set (map snd p)"
  define N where "N = set (node_ids g)"
  define E where "E = set (edge_list g)"
  from inv have sub: "D \<subseteq> N" unfolding kahn_inv_def D_def N_def by simp
  from inv have i5: "unmet g D n = 0 \<longleftrightarrow> n \<in> D" if "n \<in> N" for n
    using that unfolding kahn_inv_def D_def N_def by simp
  from wf have ends: "u \<in> N" if "(u, w) \<in> E" for u w
    using that unfolding wf_graph_def list_all_iff nx_has_node_iff N_def E_def by fastforce
  have "finite E" by (simp add: E_def)
  then have wfE: "wf E" using ac unfolding E_def by (rule finite_acyclic_wf)
  have "N - D = {}"
  proof (rule ccontr)
    assume "N - D \<noteq> {}"
    then obtain n where n: "n \<in> N - D" by blast
    from wfE n obtain z where z: "z \<in> N - D" and least: "\<And>y. (y, z) \<in> E \<Longrightarrow> y \<notin> N - D"
      by (rule wfE_min) blast
    from z i5 [of z] have "unmet g D z \<noteq> 0" by simp
    then obtain u where u: "(u, z) \<in> E" and uD: "u \<notin> D"
      by (auto simp: unmet_zero_iff E_def)
    from ends [OF u] uD have "u \<in> N - D" by simp
    with least [OF u] show False by simp
  qed
  with sub show ?thesis unfolding D_def N_def by blast
qed

lemma kahn_inv_initial:
  assumes wf: "wf_graph g"
  shows "kahn_inv g
           (filter (\<lambda>node. map_of (map (\<lambda>node. (node, in_degree g node)) (node_ids g)) node = Some 0)
              (node_ids g))
           (map (\<lambda>node. (node, in_degree g node)) (node_ids g)) [] []"
proof -
  let ?m = "map (\<lambda>node. (node, in_degree g node)) (node_ids g)"
  from wf have dN: "distinct (node_ids g)" and dE: "distinct (edge_list g)"
    by (simp_all add: wf_graph_def)
  have look: "map_of ?m n = (if n \<in> set (node_ids g) then Some (int (unmet g {} n)) else None)" for n
    by (simp add: map_of_map_restrict restrict_map_def in_degree_unmet [OF dE])
  show ?thesis
    unfolding kahn_inv_def
  proof (intro conjI allI ballI impI)
    show "distinct (map snd [] @ filter (\<lambda>node. map_of ?m node = Some 0) (node_ids g))"
      using dN by simp
    show "set (map snd [] @ filter (\<lambda>node. map_of ?m node = Some 0) (node_ids g)) \<subseteq> set (node_ids g)"
      by auto
    show "distinct ([] :: string list)" by simp
    show "set ([] :: string list) = set (map snd ([] :: (node_attrs \<times> string) list))" by simp
    show "map_of ?m n =
        (if n \<in> set (node_ids g)
         then Some (int (unmet g (set (map snd ([] :: (node_attrs \<times> string) list))) n)) else None)" for n
      using look [of n] by simp
    show "unmet g (set (map snd ([] :: (node_attrs \<times> string) list))) n = 0 \<longleftrightarrow>
        n \<in> set (map snd ([] :: (node_attrs \<times> string) list))
              \<union> set (filter (\<lambda>node. map_of ?m node = Some 0) (node_ids g))"
      if "n \<in> set (node_ids g)" for n
      using that by (simp add: look)
    show "fst e \<in> set (map snd ([] :: (node_attrs \<times> string) list))"
      if "snd e \<in> set (map snd ([] :: (node_attrs \<times> string) list))" for e :: "string \<times> string"
      using that by simp
    show "plan_index [] (fst e) < plan_index [] (snd e)"
      if "snd e \<in> set (map snd ([] :: (node_attrs \<times> string) list))" for e :: "string \<times> string"
      using that by simp
  qed
qed

lemma resolve_dependencies_plan:
  assumes wf: "wf_graph g" and ac: "acyclic (set (edge_list g))"
  shows "\<exists>plan. resolve_dependencies g = Inr plan
      \<and> distinct (map snd plan)
      \<and> set (map snd plan) = set (node_ids g)
      \<and> length plan = length (node_list g)
      \<and> list_all (\<lambda>e. plan_index plan (fst e) < plan_index plan (snd e)) (edge_list g)"
proof -
  let ?m = "map (\<lambda>node. (node, in_degree g node)) (node_ids g)"
  let ?q = "filter (\<lambda>node. map_of ?m node = Some 0) (node_ids g)"
  from kahn_loop_total [OF wf kahn_inv_initial [OF wf]] obtain v p m' where
    run: "kahn_loop g ?q ?m [] [] = Inr (v, p)" and inv: "kahn_inv g [] m' v p"
    by blast
  have cover: "set (map snd p) = set (node_ids g)"
    by (rule kahn_final_covers [OF wf ac inv])
  from inv have dp: "distinct (map snd p)" and dv: "distinct v" and sv: "set v = set (map snd p)"
    unfolding kahn_inv_def by simp_all
  from wf have dN: "distinct (node_ids g)" by (simp add: wf_graph_def)
  have "length v = card (set v)" using dv by (rule distinct_card [symmetric])
  also have "\<dots> = card (set (node_ids g))" by (simp only: sv cover)
  also have "\<dots> = length (node_ids g)" using dN by (rule distinct_card)
  finally have lv: "length v = length (node_list g)" by (simp add: node_ids_def)
  have "length (map snd p) = card (set (map snd p))" using dp by (rule distinct_card [symmetric])
  also have "\<dots> = card (set (node_ids g))" by (simp only: cover)
  also have "\<dots> = length (node_ids g)" using dN by (rule distinct_card)
  finally have lp: "length p = length (node_list g)" by (simp add: node_ids_def)
  have ends: "snd e \<in> set (node_ids g)" if "e \<in> set (edge_list g)" for e
    using wf that unfolding wf_graph_def list_all_iff nx_has_node_iff by blast
  from inv have ord: "plan_index p (fst e) < plan_index p (snd e)"
    if "e \<in> set (edge_list g)" for e
    using that ends [OF that] unfolding kahn_inv_def cover by blast
  have res: "resolve_dependencies g = Inr p"
    by (simp add: resolve_dependencies_def Let_def run lv)
  from res dp cover lp ord show ?thesis
    by (simp add: list_all_iff)
qed

section \<open>Claim about the resolver\<close>

text \<open>
  Claim C1. For every graph the builder can hold, \<^verbatim>\<open>resolve_dependencies\<close> returns a
  plan (it raises nothing, the cycle test included) in which every node of the graph appears
  exactly once and, for every edge \<^verbatim>\<open>(u, v)\<close>, the entry of \<^verbatim>\<open>u\<close> stands strictly before
  the entry of \<^verbatim>\<open>v\<close>. The plan of the code is a flat list with one entry per node, so the
  stage of a node is the position of its entry.
\<close>

theorem resolve_dependencies_respects_edges:
  assumes "buildable g"
  shows "\<exists>plan. resolve_dependencies g = Inr plan
      \<and> distinct (map snd plan)
      \<and> set (map snd plan) = set (node_ids g)
      \<and> length plan = length (node_list g)
      \<and> list_all (\<lambda>e. plan_index plan (fst e) < plan_index plan (snd e)) (edge_list g)"
  using assms by (intro resolve_dependencies_plan buildable_wf buildable_acyclic)

theorem resolve_dependencies_respects_edges_witness:
  "buildable g_ab
   \<and> resolve_dependencies g_ab
       = Inr [(\<lparr>attr_type = ''ADD'', attr_parameters = [(''sources'', PList [])]\<rparr>, ''A''),
              (\<lparr>attr_type = ''SMA'', attr_parameters = [(''sources'', PList [])]\<rparr>, ''B'')]
   \<and> (\<exists>plan. resolve_dependencies g_ab = Inr plan
      \<and> distinct (map snd plan)
      \<and> set (map snd plan) = set (node_ids g_ab)
      \<and> length plan = length (node_list g_ab)
      \<and> list_all (\<lambda>e. plan_index plan (fst e) < plan_index plan (snd e)) (edge_list g_ab))"
proof (intro conjI)
  show "buildable g_ab" by (rule buildable_g_ab)
  show "resolve_dependencies g_ab
       = Inr [(\<lparr>attr_type = ''ADD'', attr_parameters = [(''sources'', PList [])]\<rparr>, ''A''),
              (\<lparr>attr_type = ''SMA'', attr_parameters = [(''sources'', PList [])]\<rparr>, ''B'')]"
    by (simp add: g_ab_eq resolve_dependencies_def node_ids_def in_degree_def successors_def
        List.insert_def)
  show "\<exists>plan. resolve_dependencies g_ab = Inr plan
      \<and> distinct (map snd plan)
      \<and> set (map snd plan) = set (node_ids g_ab)
      \<and> length plan = length (node_list g_ab)
      \<and> list_all (\<lambda>e. plan_index plan (fst e) < plan_index plan (snd e)) (edge_list g_ab)"
    by (rule resolve_dependencies_respects_edges [OF buildable_g_ab])
qed

end
